theory Spec2Isabelle
  imports Main
begin

section \<open>Python values, errors and HTTP data\<close>

text \<open>
  The mixin of \<^verbatim>\<open>src/async_mixin/mixin.py\<close> is dynamically typed. The values that
  reach the quota attributes are \<^verbatim>\<open>None\<close>, integers (the defaults of
  \<^verbatim>\<open>headers.get(key, 0)\<close>, or what a test double puts into a header map) and strings
  (what a real HTTP header holds).
\<close>

datatype pyval = PNone | PInt int | PStr string

text \<open>
  Exceptions are values. \<^verbatim>\<open>SystemExit\<close> is the only one of them that is not a subclass
  of Python's \<^verbatim>\<open>Exception\<close>; \<^verbatim>\<open>get\<close> and \<^verbatim>\<open>post\<close> raise it.
\<close>

datatype error =
    ValueError | AttributeError | TypeError | RuntimeError
  | ConnectionError | JSONDecodeError | SystemExit

fun is_Exception :: "error \<Rightarrow> bool" where
  "is_Exception SystemExit = False"
| "is_Exception _ = True"

text \<open>Decoded bodies. \<open>JSet\<close> is a Python set of strings: the error payload's message.\<close>

datatype json =
    JNull | JInt int | JStr string | JList "json list"
  | JObj "(string \<times> json) list" | JSet "string list"

text \<open>
  What is passed as a URL: a string, or (in \<^verbatim>\<open>process_posts\<close>) whatever list the
  caller handed over.
\<close>

datatype pyurl = UStr string | UList "pyurl list"

record response =
  status :: int
  reason :: string
  resp_headers :: "string \<rightharpoonup> pyval"
  body :: "json option"

datatype request = GetReq pyurl | PostReq pyurl json

text \<open>
  The transport is a black box: a request gets a response, or no response at all
  (connection failure, timeout), which the libraries raise as an exception.
\<close>

type_synonym transport = "request \<Rightarrow> response option"

datatype session_state = Open | Closed

section \<open>The host object\<close>

text \<open>
  The attributes the mixin reads and writes on \<^verbatim>\<open>self\<close>. An attribute that was never
  assigned is \<open>None\<close> (so \<^verbatim>\<open>hasattr\<close> is \<open>\<noteq> None\<close>, and reading it raises
  \<^verbatim>\<open>AttributeError\<close>); an attribute holding Python's \<^verbatim>\<open>None\<close> is \<open>Some PNone\<close>.
  Three fields are not attributes but the environment the methods act on: \<open>calls\<close> is
  the log of requests handed to the transport, \<open>next_loop\<close> numbers the event loops
  created so far and \<open>open_loops\<close> lists those not yet closed.
\<close>

record client =
  headers :: "(string \<rightharpoonup> string) option"
  cached_session :: "session_state option"
  throttler :: "(int \<times> int) option"
  conn :: "nat option"
  call_count_key :: "string option"
  call_count_limit_key :: "string option"
  call_limit_remaining_key :: "string option"
  call_counts :: "pyval option"
  call_count_limit :: "pyval option"
  remaining_calls :: "pyval option"
  calls :: "request list"
  next_loop :: nat
  open_loops :: "nat list"

type_synonym 'a outcome = "(error + 'a) \<times> client"

type_synonym coroutine = "client \<Rightarrow> json outcome"

section \<open>The quota guard: \<^verbatim>\<open>call_limiter\<close>\<close>

text \<open>\<^verbatim>\<open>self.remaining_calls > 0\<close>: only an integer compares with \<open>0\<close>.\<close>

fun py_gt_zero :: "pyval \<Rightarrow> error + bool" where
  "py_gt_zero (PInt n) = Inr (0 < n)"
| "py_gt_zero (PStr s) = Inl TypeError"
| "py_gt_zero PNone = Inl TypeError"

text \<open>
  The decorator. \<open>func\<close> is the wrapped method with its arguments applied; the wrapper
  either returns what \<open>func\<close> returns or raises without calling it.
\<close>

definition call_limiter :: "(client \<Rightarrow> 'r) \<Rightarrow> client \<Rightarrow> error + 'r" where
  "call_limiter func self =
     (case remaining_calls self of
        None \<Rightarrow> Inl AttributeError
      | Some v \<Rightarrow>
          if v = PNone then Inr (func self)
          else (case py_gt_zero v of
                  Inl e \<Rightarrow> Inl e
                | Inr b \<Rightarrow> if b then Inr (func self) else Inl ValueError))"

section \<open>Session, reset, rate limit\<close>

text \<open>The \<^verbatim>\<open>session\<close> property: the cached session, created from \<^verbatim>\<open>self.headers\<close> on demand.\<close>

definition session :: "client \<Rightarrow> session_state outcome" where
  "session self =
     (case cached_session self of
        Some s \<Rightarrow> (Inr s, self)
      | None \<Rightarrow>
          (case headers self of
             None \<Rightarrow> (Inl AttributeError, self)
           | Some h \<Rightarrow> (Inr Open, self\<lparr>cached_session := Some Open\<rparr>)))"

definition reset :: "client \<Rightarrow> client" where
  "reset self = self\<lparr>cached_session := None\<rparr>"

definition set_rate_limit :: "int \<Rightarrow> int \<Rightarrow> client \<Rightarrow> client" where
  "set_rate_limit n p self = self\<lparr>throttler := Some (n, p)\<rparr>"

text \<open>Leaving \<^verbatim>\<open>async with self.session\<close> closes the session object; the attribute stays.\<close>

definition close_session :: "client \<Rightarrow> client" where
  "close_session self =
     (case cached_session self of
        None \<Rightarrow> self
      | Some s \<Rightarrow> self\<lparr>cached_session := Some Closed\<rparr>)"

section \<open>The quota update: \<^verbatim>\<open>check_call_limit\<close>\<close>

definition headers_get :: "response \<Rightarrow> string \<Rightarrow> pyval \<Rightarrow> pyval" where
  "headers_get resp k d = (case resp_headers resp k of None \<Rightarrow> d | Some v \<Rightarrow> v)"

fun truthy :: "pyval \<Rightarrow> bool" where
  "truthy PNone = False"
| "truthy (PInt n) = (n \<noteq> 0)"
| "truthy (PStr s) = (s \<noteq> [])"

text \<open>\<^verbatim>\<open>a - b\<close>: defined on integers; on strings and \<^verbatim>\<open>None\<close> Python raises \<^verbatim>\<open>TypeError\<close>.\<close>

fun py_sub :: "pyval \<Rightarrow> pyval \<Rightarrow> error + pyval" where
  "py_sub (PInt a) (PInt b) = Inr (PInt (a - b))"
| "py_sub _ _ = Inl TypeError"

text \<open>The first \<^verbatim>\<open>if\<close> of \<^verbatim>\<open>check_call_limit\<close>: both key names must be configured.\<close>

definition read_counts :: "client \<Rightarrow> response \<Rightarrow> client" where
  "read_counts self resp =
     (case call_count_key self of
        None \<Rightarrow> self
      | Some kc \<Rightarrow>
          (case call_count_limit_key self of
             None \<Rightarrow> self
           | Some kl \<Rightarrow>
               self\<lparr>call_counts := Some (headers_get resp kc (PInt 0)),
                    call_count_limit := Some (headers_get resp kl (PInt 0))\<rparr>))"

text \<open>
  The second \<^verbatim>\<open>if\<close>/\<^verbatim>\<open>elif\<close>. The \<^verbatim>\<open>elif\<close> reads \<^verbatim>\<open>self.call_counts\<close> and, only when
  that is truthy, \<^verbatim>\<open>self.call_count_limit\<close>; an exception leaves the assignments made so
  far in place.
\<close>

definition check_call_limit :: "client \<Rightarrow> response \<Rightarrow> unit outcome" where
  "check_call_limit self resp =
     (let s1 = read_counts self resp in
      case call_limit_remaining_key s1 of
        Some kr \<Rightarrow> (Inr (), s1\<lparr>remaining_calls := Some (headers_get resp kr (PInt 1))\<rparr>)
      | None \<Rightarrow>
          (case call_counts s1 of
             None \<Rightarrow> (Inl AttributeError, s1)
           | Some c \<Rightarrow>
               if \<not> truthy c then (Inr (), s1)
               else (case call_count_limit s1 of
                       None \<Rightarrow> (Inl AttributeError, s1)
                     | Some l \<Rightarrow>
                         if \<not> truthy l then (Inr (), s1)
                         else (case py_sub l c of
                                 Inl e \<Rightarrow> (Inl e, s1)
                               | Inr v \<Rightarrow> (Inr (), s1\<lparr>remaining_calls := Some v\<rparr>)))))"

section \<open>The guarded operations\<close>

text \<open>\<^verbatim>\<open>resp.json()\<close>: the decoded body, or the decoder's exception.\<close>

definition decode :: "response \<Rightarrow> client \<Rightarrow> json outcome" where
  "decode resp self =
     (case body resp of None \<Rightarrow> (Inl JSONDecodeError, self) | Some d \<Rightarrow> (Inr d, self))"

text \<open>\<^verbatim>\<open>raise_for_status\<close> raises for the status codes 400 to 599.\<close>

definition http_error :: "response \<Rightarrow> bool" where
  "http_error resp = (400 \<le> status resp \<and> status resp < 600)"

definition get_body :: "transport \<Rightarrow> pyurl \<Rightarrow> (string \<rightharpoonup> string) \<Rightarrow> client \<Rightarrow> json outcome" where
  "get_body T url hdrs self =
     (let s1 = self\<lparr>calls := calls self @ [GetReq url]\<rparr> in
      case T (GetReq url) of
        None \<Rightarrow> (Inl ConnectionError, s1)
      | Some resp \<Rightarrow>
          if http_error resp then (Inl SystemExit, s1)
          else (case check_call_limit s1 resp of
                  (Inl e, s2) \<Rightarrow> (Inl e, s2)
                | (Inr u, s2) \<Rightarrow> decode resp s2))"

text \<open>
  \<^verbatim>\<open>post\<close> reads \<^verbatim>\<open>self.headers\<close> while building the call, and prints the decoded body
  before it raises \<^verbatim>\<open>SystemExit\<close>.
\<close>

definition post_body :: "transport \<Rightarrow> pyurl \<Rightarrow> json \<Rightarrow> client \<Rightarrow> json outcome" where
  "post_body T url data self =
     (case headers self of
        None \<Rightarrow> (Inl AttributeError, self)
      | Some h \<Rightarrow>
          (let s1 = self\<lparr>calls := calls self @ [PostReq url data]\<rparr> in
           case T (PostReq url data) of
             None \<Rightarrow> (Inl ConnectionError, s1)
           | Some resp \<Rightarrow>
               if http_error resp then
                 (case body resp of
                    None \<Rightarrow> (Inl JSONDecodeError, s1)
                  | Some d \<Rightarrow> (Inl SystemExit, s1))
               else (case check_call_limit s1 resp of
                       (Inl e, s2) \<Rightarrow> (Inl e, s2)
                     | (Inr u, s2) \<Rightarrow> decode resp s2)))"

text \<open>A guarded synchronous method: the guard's exception leaves \<^verbatim>\<open>self\<close> as it was.\<close>

definition guarded :: "(client \<Rightarrow> 'a outcome) \<Rightarrow> client \<Rightarrow> 'a outcome" where
  "guarded func self =
     (case call_limiter func self of Inl e \<Rightarrow> (Inl e, self) | Inr r \<Rightarrow> r)"

definition get :: "transport \<Rightarrow> pyurl \<Rightarrow> (string \<rightharpoonup> string) \<Rightarrow> client \<Rightarrow> json outcome" where
  "get T url hdrs = guarded (get_body T url hdrs)"

definition post :: "transport \<Rightarrow> pyurl \<Rightarrow> json \<Rightarrow> client \<Rightarrow> json outcome" where
  "post T url data = guarded (post_body T url data)"

text \<open>The uniform error payload of the asynchronous methods.\<close>

definition degraded :: "string \<Rightarrow> json" where
  "degraded r =
     JObj [(''data'', JObj []), (''message'', JSet [''Error: '' @ r]), (''meta'', JObj [])]"

text \<open>
  The bodies of the coroutines \<^verbatim>\<open>async_get\<close> and \<^verbatim>\<open>async_post\<close> are the same
  lines but for the session's method they call (and a \<^verbatim>\<open>print\<close>): enter the
  throttler, take the session, send, then check the status, update the quota and
  decode. \<open>send\<close> is that body for either request. A closed session refuses to
  send; the failed assertion on the status is caught and turned into the error payload.
\<close>

definition send :: "transport \<Rightarrow> request \<Rightarrow> client \<Rightarrow> json outcome" where
  "send T req self =
     (case throttler self of
        None \<Rightarrow> (Inl AttributeError, self)
      | Some th \<Rightarrow>
          (case session self of
             (Inl e, s1) \<Rightarrow> (Inl e, s1)
           | (Inr ss, s1) \<Rightarrow>
               if ss = Closed then (Inl RuntimeError, s1)
               else
                 (let s2 = s1\<lparr>calls := calls s1 @ [req]\<rparr> in
                  case T req of
                    None \<Rightarrow> (Inl ConnectionError, s2)
                  | Some resp \<Rightarrow>
                      if status resp \<noteq> 200 then (Inr (degraded (reason resp)), s2)
                      else (case check_call_limit s2 resp of
                              (Inl e, s3) \<Rightarrow> (Inl e, s3)
                            | (Inr u, s3) \<Rightarrow> decode resp s3))))"

definition async_get_body :: "transport \<Rightarrow> pyurl \<Rightarrow> coroutine" where
  "async_get_body T url = send T (GetReq url)"

definition async_post_body :: "transport \<Rightarrow> pyurl \<Rightarrow> json \<Rightarrow> coroutine" where
  "async_post_body T url payload = send T (PostReq url payload)"

text \<open>
  Calling a decorated \<^verbatim>\<open>async def\<close> runs the guard at once and returns the coroutine
  object, not yet started: creating it reads and changes nothing.
\<close>

definition async_get :: "transport \<Rightarrow> pyurl \<Rightarrow> client \<Rightarrow> error + coroutine" where
  "async_get T url = call_limiter (\<lambda>self. async_get_body T url)"

definition async_post :: "transport \<Rightarrow> pyurl \<Rightarrow> json \<Rightarrow> client \<Rightarrow> error + coroutine" where
  "async_post T url payload = call_limiter (\<lambda>self. async_post_body T url payload)"

section \<open>The concurrent batch executor\<close>

text \<open>
  The \<^verbatim>\<open>for\<close> loops of \<^verbatim>\<open>process_gets\<close> and \<^verbatim>\<open>process_posts\<close>: each iteration calls
  the decorated method, which runs the guard and appends the new coroutine; a guard that
  raises ends the loop.
\<close>

fun get_tasks :: "transport \<Rightarrow> pyurl list \<Rightarrow> client \<Rightarrow> error + coroutine list" where
  "get_tasks T [] self = Inr []"
| "get_tasks T (url # urls) self =
     (case async_get T url self of
        Inl e \<Rightarrow> Inl e
      | Inr t \<Rightarrow> (case get_tasks T urls self of Inl e \<Rightarrow> Inl e | Inr ts \<Rightarrow> Inr (t # ts)))"

fun post_tasks :: "transport \<Rightarrow> (pyurl \<times> json) list \<Rightarrow> client \<Rightarrow> error + coroutine list" where
  "post_tasks T [] self = Inr []"
| "post_tasks T ((url, payload) # rest) self =
     (case async_post T url payload self of
        Inl e \<Rightarrow> Inl e
      | Inr t \<Rightarrow> (case post_tasks T rest self of Inl e \<Rightarrow> Inl e | Inr ts \<Rightarrow> Inr (t # ts)))"

text \<open>
  \<^verbatim>\<open>asyncio.gather\<close> runs the coroutines as tasks on one event loop. A schedule says in
  which order the tasks complete: any list of numbers is one, read as the valid indices
  it names, in its order and each once, followed by the indices it leaves out.
\<close>

definition completion_order :: "nat \<Rightarrow> nat list \<Rightarrow> nat list" where
  "completion_order n sched =
     (let named = filter (\<lambda>i. i < n) (remdups sched)
      in named @ filter (\<lambda>i. i \<notin> set named) [0..<n])"

text \<open>
  The tasks share \<^verbatim>\<open>self\<close> and never run in parallel: what one task does to \<^verbatim>\<open>self\<close>
  between two suspension points is atomic. The transport answers a request whatever
  else has been sent, so each task is run here from its send to its return at the point
  where it completes. The first exception ends the run: \<^verbatim>\<open>gather\<close> raises it.
\<close>

fun run_tasks :: "coroutine list \<Rightarrow> nat list \<Rightarrow> client \<Rightarrow> (nat \<times> json) list outcome" where
  "run_tasks tasks [] self = (Inr [], self)"
| "run_tasks tasks (i # rest) self =
     (case (tasks ! i) self of
        (Inl e, s1) \<Rightarrow> (Inl e, s1)
      | (Inr v, s1) \<Rightarrow>
          (case run_tasks tasks rest s1 of
             (Inl e, s2) \<Rightarrow> (Inl e, s2)
           | (Inr finished, s2) \<Rightarrow> (Inr ((i, v) # finished), s2)))"

text \<open>\<^verbatim>\<open>gather\<close> returns the results by the position of each coroutine in its arguments.\<close>

definition gather :: "coroutine list \<Rightarrow> nat list \<Rightarrow> client \<Rightarrow> json list outcome" where
  "gather tasks sched self =
     (case run_tasks tasks (completion_order (length tasks) sched) self of
        (Inl e, s1) \<Rightarrow> (Inl e, s1)
      | (Inr finished, s1) \<Rightarrow>
          (Inr (List.map_filter (map_of finished) [0..<length tasks]), s1))"

definition process_gets :: "transport \<Rightarrow> nat list \<Rightarrow> pyurl list \<Rightarrow> client \<Rightarrow> json list outcome" where
  "process_gets T sched urls self =
     (case session self of
        (Inl e, s1) \<Rightarrow> (Inl e, s1)
      | (Inr ss, s1) \<Rightarrow>
          (case get_tasks T urls s1 of
             Inl e \<Rightarrow> (Inl e, close_session s1)
           | Inr tasks \<Rightarrow>
               (case gather tasks sched s1 of (r, s2) \<Rightarrow> (r, close_session s2))))"

text \<open>
  The first two lines of \<^verbatim>\<open>process_posts\<close>: a string, or a list of length one, is put
  into a list and repeated; any other list is used as it is.
\<close>

definition broadcast :: "pyurl \<Rightarrow> json list \<Rightarrow> pyurl list" where
  "broadcast urls payloads =
     (case urls of
        UStr a \<Rightarrow> replicate (length payloads) urls
      | UList us \<Rightarrow> if length us = 1 then replicate (length payloads) urls else us)"

definition process_posts ::
  "transport \<Rightarrow> nat list \<Rightarrow> pyurl \<Rightarrow> json list \<Rightarrow> client \<Rightarrow> json list outcome" where
  "process_posts T sched urls payloads self =
     (case session self of
        (Inl e, s1) \<Rightarrow> (Inl e, s1)
      | (Inr ss, s1) \<Rightarrow>
          (case post_tasks T (zip (broadcast urls payloads) payloads) s1 of
             Inl e \<Rightarrow> (Inl e, close_session s1)
           | Inr tasks \<Rightarrow>
               (case gather tasks sched s1 of (r, s2) \<Rightarrow> (r, close_session s2))))"

section \<open>The synchronous bridge: \<^verbatim>\<open>pipeline\<close>\<close>

text \<open>
  How \<^verbatim>\<open>pipeline\<close> calls the wrapped method: \<^verbatim>\<open>method(*args)\<close>,
  \<^verbatim>\<open>method(args)\<close>, \<^verbatim>\<open>method(**kwargs)\<close> or \<^verbatim>\<open>method()\<close>.
\<close>

datatype 'a invocation =
    Spread "'a list" | Aggregate "'a list" | Keywords "(string \<times> 'a) list" | NoArgs

text \<open>
  \<^verbatim>\<open>asyncio.new_event_loop()\<close> makes a loop no one has seen before;
  \<^verbatim>\<open>_async_conn\<close> stores a connector bound to it in \<^verbatim>\<open>self.conn\<close>.
\<close>

definition new_event_loop :: "client \<Rightarrow> nat \<times> client" where
  "new_event_loop self =
     (next_loop self,
      self\<lparr>next_loop := Suc (next_loop self), open_loops := next_loop self # open_loops self\<rparr>)"

definition async_conn :: "nat \<Rightarrow> client \<Rightarrow> client" where
  "async_conn loop self = self\<lparr>conn := Some loop\<rparr>"

definition loop_close :: "nat \<Rightarrow> client \<Rightarrow> client" where
  "loop_close loop self = self\<lparr>open_loops := removeAll loop (open_loops self)\<rparr>"

text \<open>
  The \<^verbatim>\<open>if len(args)\<close> / \<^verbatim>\<open>elif len(kwargs)\<close> / \<^verbatim>\<open>else\<close> of \<^verbatim>\<open>pipeline\<close>.
\<close>

definition invocation_of :: "'a list \<Rightarrow> (string \<times> 'a) list \<Rightarrow> bool \<Rightarrow> 'a invocation" where
  "invocation_of args kwargs unpack =
     (if length args \<noteq> 0 then (if unpack then Spread args else Aggregate args)
      else if length kwargs \<noteq> 0 then Keywords kwargs
      else NoArgs)"

text \<open>
  The method is called, and its coroutine run, inside \<^verbatim>\<open>try\<close>; the handler is
  \<^verbatim>\<open>except Exception\<close>, after which the loop is closed, the session is reset and
  \<^verbatim>\<open>res\<close> (still \<^verbatim>\<open>None\<close> after an exception) is returned. An exception the handler
  does not catch leaves \<^verbatim>\<open>pipeline\<close> at once.
\<close>

definition pipeline ::
  "('a invocation \<Rightarrow> client \<Rightarrow> 'r outcome) \<Rightarrow> 'a list option \<Rightarrow> (string \<times> 'a) list option \<Rightarrow>
     bool \<Rightarrow> client \<Rightarrow> 'r option outcome" where
  "pipeline method args kwargs unpack self =
     (let args1 = (case args of None \<Rightarrow> [] | Some a \<Rightarrow> a);
          kwargs1 = (case kwargs of None \<Rightarrow> [] | Some k \<Rightarrow> k);
          (loop, s1) = new_event_loop self;
          s2 = async_conn loop s1
      in case method (invocation_of args1 kwargs1 unpack) s2 of
           (Inr v, s3) \<Rightarrow> (Inr (Some v), reset (loop_close loop s3))
         | (Inl e, s3) \<Rightarrow>
             if is_Exception e then (Inr None, reset (loop_close loop s3))
             else (Inl e, s3))"

section \<open>Notions used in the statements\<close>

text \<open>
  The guard lets a call through: \<^verbatim>\<open>remaining_calls\<close> holds \<^verbatim>\<open>None\<close> or a positive
  integer.
\<close>

definition guard_open :: "client \<Rightarrow> bool" where
  "guard_open self =
     (case remaining_calls self of
        None \<Rightarrow> False
      | Some v \<Rightarrow> v = PNone \<or> py_gt_zero v = Inr True)"

text \<open>
  A session can be had, a batch can run: the host has a rate limit, and its session is
  there and open or can be created.
\<close>

definition session_ok :: "client \<Rightarrow> bool" where
  "session_ok self = (cached_session self \<noteq> None \<or> headers self \<noteq> None)"

definition ready :: "client \<Rightarrow> bool" where
  "ready self =
     (session_ok self \<and> cached_session self \<noteq> Some Closed \<and> throttler self \<noteq> None \<and>
      guard_open self)"

text \<open>
  A request whose coroutine returns: the transport responds, and either the status is
  not 200 or the quota update goes through and the body decodes.
\<close>

definition answers :: "transport \<Rightarrow> client \<Rightarrow> request \<Rightarrow> bool" where
  "answers T self req =
     (case T req of
        None \<Rightarrow> False
      | Some resp \<Rightarrow>
          status resp \<noteq> 200 \<or> (fst (check_call_limit self resp) = Inr () \<and> body resp \<noteq> None))"

text \<open>
  What a coroutine returns does not depend on the counters other coroutines write: with
  both header keys configured the counts are overwritten before they are read, and
  otherwise nothing writes them. \<open>same_quota\<close> and \<open>same_view\<close> relate hosts that
  differ only in what a coroutine may change; \<open>reply\<close> is what a sent request returns.
\<close>

definition counts_from_headers :: "client \<Rightarrow> bool" where
  "counts_from_headers a = (call_count_key a \<noteq> None \<and> call_count_limit_key a \<noteq> None)"

definition same_quota :: "client \<Rightarrow> client \<Rightarrow> bool" where
  "same_quota a b =
     (call_count_key a = call_count_key b \<and>
      call_count_limit_key a = call_count_limit_key b \<and>
      call_limit_remaining_key a = call_limit_remaining_key b \<and>
      (counts_from_headers a \<or>
       (call_counts a = call_counts b \<and> call_count_limit a = call_count_limit b)))"

definition same_view :: "client \<Rightarrow> client \<Rightarrow> bool" where
  "same_view a b =
     (cached_session a = cached_session b \<and> throttler a = throttler b \<and>
      headers a = headers b \<and> same_quota a b)"

definition reply :: "transport \<Rightarrow> client \<Rightarrow> request \<Rightarrow> error + json" where
  "reply T a req =
     (case T req of
        None \<Rightarrow> Inl ConnectionError
      | Some resp \<Rightarrow>
          if status resp \<noteq> 200 then Inr (degraded (reason resp))
          else (case fst (check_call_limit a resp) of
                  Inl e \<Rightarrow> Inl e
                | Inr u \<Rightarrow> (case body resp of None \<Rightarrow> Inl JSONDecodeError | Some d \<Rightarrow> Inr d)))"

text \<open>
  The host as the wrapped method of \<^verbatim>\<open>pipeline\<close> finds it, and the call it receives.
\<close>

definition pipeline_context :: "client \<Rightarrow> client" where
  "pipeline_context self = async_conn (next_loop self) (snd (new_event_loop self))"

definition passed :: "'a list option \<Rightarrow> (string \<times> 'a) list option \<Rightarrow> bool \<Rightarrow> 'a invocation" where
  "passed args kwargs unpack =
     invocation_of (case args of None \<Rightarrow> [] | Some a \<Rightarrow> a)
       (case kwargs of None \<Rightarrow> [] | Some k \<Rightarrow> k) unpack"

section \<open>Example hosts and transports\<close>

text \<open>
  A host that configured its headers, a rate limit and the name of the "remaining"
  header, and assigned none of the quota counters.
\<close>

definition host0 :: client where
  "host0 = \<lparr>headers = Some Map.empty, cached_session = None, throttler = Some (5, 60),
     conn = None, call_count_key = None, call_count_limit_key = None,
     call_limit_remaining_key = Some ''X-Remaining'', call_counts = None,
     call_count_limit = None, remaining_calls = None, calls = [], next_loop = 0,
     open_loops = []\<rparr>"

text \<open>
  A host that initialised \<^verbatim>\<open>remaining_calls = None\<close>.
\<close>

definition host1 :: client where
  "host1 = host0\<lparr>remaining_calls := Some PNone\<rparr>"


definition ok_response :: "json \<Rightarrow> response" where
  "ok_response d = \<lparr>status = 200, reason = ''OK'', resp_headers = Map.empty, body = Some d\<rparr>"

definition ok_transport :: transport where
  "ok_transport req = Some (ok_response (JStr ''pong''))"



definition string_response :: response where
  "string_response = \<lparr>status = 200, reason = ''OK'',
     resp_headers = [''X-Remaining'' \<mapsto> PStr ''5''], body = Some JNull\<rparr>"

text \<open>
  A transport with one address that is not found, one whose body does not decode and one
  that never answers.
\<close>

definition not_found :: response where
  "not_found = \<lparr>status = 404, reason = ''Not Found'', resp_headers = Map.empty, body = None\<rparr>"

definition malformed :: response where
  "malformed = \<lparr>status = 200, reason = ''OK'', resp_headers = Map.empty, body = None\<rparr>"

definition abc_transport :: transport where
  "abc_transport req =
     (if req = GetReq (UStr ''/missing'') then Some not_found
      else if req = GetReq (UStr ''/garbled'') then Some malformed
      else if req = GetReq (UStr ''/slow'') then None
      else Some (ok_response (JStr ''pong'')))"

text \<open>
  \<^verbatim>\<open>pipeline(self.process_gets, args=urls)\<close>: the bound method takes one list. And an
  operation that touches the session and then calls \<^verbatim>\<open>self.get\<close> on an address that
  is not found.
\<close>

definition gets_method :: "transport \<Rightarrow> nat list \<Rightarrow> pyurl invocation \<Rightarrow> client \<Rightarrow> json list outcome" where
  "gets_method T sched call self =
     (case call of
        Aggregate urls \<Rightarrow> process_gets T sched urls self
      | _ \<Rightarrow> (Inl TypeError, self))"

definition exiting_method :: "pyurl invocation \<Rightarrow> client \<Rightarrow> json outcome" where
  "exiting_method call self = get abc_transport (UStr ''/missing'') Map.empty (snd (session self))"

section \<open>Unfolding the examples\<close>

lemmas example_defs =
  host0_def host1_def ok_transport_def ok_response_def abc_transport_def not_found_def
  malformed_def

lemmas run_defs =
  process_gets_def process_posts_def session_def close_session_def async_get_def async_post_def
  call_limiter_def gather_def completion_order_def async_get_body_def async_post_body_def
  send_def check_call_limit_def read_counts_def decode_def headers_get_def broadcast_def
  upt_rec_numeral List.map_filter_simps

section \<open>The quota guard\<close>

lemma call_limiter_exhausted:
  "remaining_calls self = Some (PInt n) \<Longrightarrow> n \<le> 0 \<Longrightarrow> call_limiter func self = Inl ValueError"
  by (simp add: call_limiter_def)

lemma call_limiter_none:
  "remaining_calls self = Some PNone \<Longrightarrow> call_limiter func self = Inr (func self)"
  by (simp add: call_limiter_def)

lemma call_limiter_absent:
  "remaining_calls self = None \<Longrightarrow> call_limiter func self = Inl AttributeError"
  by (simp add: call_limiter_def)

lemma call_limiter_passes:
  "call_limiter func self = Inr r \<Longrightarrow>
     r = func self \<and>
     (remaining_calls self = Some PNone \<or> (\<exists>n. 0 < n \<and> remaining_calls self = Some (PInt n)))"
  by (cases "remaining_calls self"; cases "the (remaining_calls self)")
     (auto simp: call_limiter_def split: if_splits)

lemma call_limiter_Inr: "(call_limiter func self = Inr r) = (guard_open self \<and> r = func self)"
  by (cases "remaining_calls self"; cases "the (remaining_calls self)")
     (auto simp: call_limiter_def guard_open_def)

lemma call_limiter_open: "guard_open self \<Longrightarrow> call_limiter func self = Inr (func self)"
  by (simp add: call_limiter_Inr)

text \<open>
  C1, as amended. When \<^verbatim>\<open>remaining_calls\<close> holds an integer \<open>n \<le> 0\<close>, each of
  \<^verbatim>\<open>get\<close>, \<^verbatim>\<open>post\<close>, \<^verbatim>\<open>async_get\<close> and \<^verbatim>\<open>async_post\<close> raises \<^verbatim>\<open>ValueError\<close> at
  the call, with the host and the transport log exactly as they were. When
  \<^verbatim>\<open>remaining_calls\<close> holds \<^verbatim>\<open>None\<close>, each of them proceeds: the synchronous
  methods run their bodies, the asynchronous ones return their coroutine.
\<close>

theorem quota_guard:
  "(remaining_calls self = Some (PInt n) \<and> n \<le> 0 \<longrightarrow>
      get T url hs self = (Inl ValueError, self) \<and>
      post T url d self = (Inl ValueError, self) \<and>
      async_get T url self = Inl ValueError \<and>
      async_post T url d self = Inl ValueError) \<and>
   (remaining_calls self = Some PNone \<longrightarrow>
      get T url hs self = get_body T url hs self \<and>
      post T url d self = post_body T url d self \<and>
      async_get T url self = Inr (async_get_body T url) \<and>
      async_post T url d self = Inr (async_post_body T url d))"
  by (simp add: get_def post_def guarded_def async_get_def async_post_def
        call_limiter_exhausted call_limiter_none)

theorem quota_guard_witness:
  "get ok_transport (UStr ''/a'') Map.empty (host0\<lparr>remaining_calls := Some (PInt 0)\<rparr>)
     = (Inl ValueError, host0\<lparr>remaining_calls := Some (PInt 0)\<rparr>) \<and>
   calls (snd (get ok_transport (UStr ''/a'') Map.empty
                 (host0\<lparr>remaining_calls := Some (PInt 0)\<rparr>))) = [] \<and>
   async_get ok_transport (UStr ''/a'') (host0\<lparr>remaining_calls := Some (PInt (- 3))\<rparr>)
     = Inl ValueError \<and>
   fst (get ok_transport (UStr ''/a'') Map.empty host1) = Inr (JStr ''pong'') \<and>
   calls (snd (get ok_transport (UStr ''/a'') Map.empty host1)) = [GetReq (UStr ''/a'')]"
  using
    quota_guard [of "host0\<lparr>remaining_calls := Some (PInt 0)\<rparr>" 0 ok_transport
      "UStr ''/a''" Map.empty JNull]
    quota_guard [of "host0\<lparr>remaining_calls := Some (PInt (- 3))\<rparr>" "- 3" ok_transport
      "UStr ''/a''" Map.empty JNull]
    quota_guard [of host1 0 ok_transport "UStr ''/a''" Map.empty JNull]
  by (simp add: host0_def host1_def get_body_def ok_transport_def ok_response_def
        http_error_def check_call_limit_def read_counts_def decode_def headers_get_def)

text \<open>
  C1 as stated fails on a host that never assigned \<^verbatim>\<open>remaining_calls\<close>: the quota
  is as unknown as it can be, the body of \<^verbatim>\<open>get\<close> would return the decoded response,
  and yet the guarded call raises \<^verbatim>\<open>AttributeError\<close> and sends nothing.
\<close>

theorem never_observed_counterexample:
  "remaining_calls host0 = None \<and>
   get ok_transport (UStr ''/a'') Map.empty host0 = (Inl AttributeError, host0) \<and>
   async_get ok_transport (UStr ''/a'') host0 = Inl AttributeError \<and>
   fst (get_body ok_transport (UStr ''/a'') Map.empty host0) = Inr (JStr ''pong'')"
  by (simp add: get_def guarded_def async_get_def call_limiter_def host0_def get_body_def
        ok_transport_def ok_response_def http_error_def check_call_limit_def
        read_counts_def decode_def headers_get_def)

text \<open>
  C9. The guard reads \<^verbatim>\<open>remaining_calls\<close> before anything else: on a host that never
  assigned it, \<^verbatim>\<open>get\<close>, \<^verbatim>\<open>post\<close>, \<^verbatim>\<open>async_get\<close> and \<^verbatim>\<open>async_post\<close> raise
  \<^verbatim>\<open>AttributeError\<close> and leave the host and the transport log untouched. Whenever the
  guard lets a call through, the attribute holds \<^verbatim>\<open>None\<close> or a positive integer.
\<close>

theorem guard_needs_attribute:
  "(remaining_calls self = None \<longrightarrow>
      get T url hs self = (Inl AttributeError, self) \<and>
      post T url d self = (Inl AttributeError, self) \<and>
      async_get T url self = Inl AttributeError \<and>
      async_post T url d self = Inl AttributeError) \<and>
   ((\<exists>c. async_get T url self = Inr c) \<or> (\<exists>c. async_post T url d self = Inr c) \<longrightarrow>
      remaining_calls self = Some PNone \<or>
      (\<exists>n. 0 < n \<and> remaining_calls self = Some (PInt n)))"
  by (auto simp: get_def post_def guarded_def async_get_def async_post_def
        call_limiter_absent dest: call_limiter_passes)

theorem guard_needs_attribute_witness:
  "post ok_transport (UStr ''/a'') JNull host0 = (Inl AttributeError, host0) \<and>
   async_post ok_transport (UStr ''/a'') JNull host0 = Inl AttributeError \<and>
   async_get ok_transport (UStr ''/a'') host1 = Inr (async_get_body ok_transport (UStr ''/a'')) \<and>
   remaining_calls host1 = Some PNone"
  using guard_needs_attribute [of host0 ok_transport "UStr ''/a''" Map.empty JNull]
    guard_needs_attribute [of host1 ok_transport "UStr ''/a''" Map.empty JNull]
  by (simp add: host0_def host1_def async_get_def call_limiter_def)

section \<open>The quota update\<close>

lemma read_counts_keys [simp]:
  "call_count_key (read_counts self resp) = call_count_key self"
  "call_count_limit_key (read_counts self resp) = call_count_limit_key self"
  "call_limit_remaining_key (read_counts self resp) = call_limit_remaining_key self"
  "remaining_calls (read_counts self resp) = remaining_calls self"
  by (simp_all add: read_counts_def split: option.splits)






section \<open>Coroutines of one batch do not disturb one another\<close>

lemma counts_from_headers_update [simp]:
  "counts_from_headers (a\<lparr>calls := cs\<rparr>) = counts_from_headers a"
  "counts_from_headers (a\<lparr>cached_session := ss\<rparr>) = counts_from_headers a"
  by (simp_all add: counts_from_headers_def)

lemma same_quota_refl: "same_quota a a"
  by (simp add: same_quota_def)

lemma same_quota_configured: "same_quota a b \<Longrightarrow> counts_from_headers b = counts_from_headers a"
  by (simp add: same_quota_def counts_from_headers_def)

lemma same_quota_trans: "same_quota a b \<Longrightarrow> same_quota b c \<Longrightarrow> same_quota a c"
  using same_quota_configured [of a b] unfolding same_quota_def by auto

lemma same_quota_update [simp]:
  "same_quota a (b\<lparr>calls := cs\<rparr>) = same_quota a b"
  "same_quota a (b\<lparr>cached_session := ss\<rparr>) = same_quota a b"
  "same_quota (a\<lparr>calls := cs\<rparr>) b = same_quota a b"
  "same_quota (a\<lparr>cached_session := ss\<rparr>) b = same_quota a b"
  by (simp_all add: same_quota_def)

lemma read_counts_quota:
  "same_quota a b \<Longrightarrow>
     call_counts (read_counts a resp) = call_counts (read_counts b resp) \<and>
     call_count_limit (read_counts a resp) = call_count_limit (read_counts b resp)"
  by (auto simp: same_quota_def counts_from_headers_def read_counts_def split: option.splits)

lemma check_call_limit_fst:
  "fst (check_call_limit a resp) =
     (case call_limit_remaining_key a of
        Some kr \<Rightarrow> Inr ()
      | None \<Rightarrow>
          (case call_counts (read_counts a resp) of
             None \<Rightarrow> Inl AttributeError
           | Some c \<Rightarrow>
               if \<not> truthy c then Inr ()
               else (case call_count_limit (read_counts a resp) of
                       None \<Rightarrow> Inl AttributeError
                     | Some l \<Rightarrow>
                         if \<not> truthy l then Inr ()
                         else (case py_sub l c of Inl e \<Rightarrow> Inl e | Inr v \<Rightarrow> Inr ()))))"
  by (simp add: check_call_limit_def Let_def split: option.splits sum.splits)

lemma check_call_limit_quota_fst:
  assumes "same_quota a b"
  shows "fst (check_call_limit a resp) = fst (check_call_limit b resp)"
proof -
  have k: "call_limit_remaining_key a = call_limit_remaining_key b"
    using assms by (simp add: same_quota_def)
  show ?thesis
    unfolding check_call_limit_fst using read_counts_quota [OF assms, of resp] k
    by (simp split: option.splits)
qed

lemma read_counts_same_quota: "same_quota a (read_counts a resp)"
  by (simp add: same_quota_def counts_from_headers_def read_counts_def split: option.splits)

lemma read_counts_frame [simp]:
  "cached_session (read_counts a resp) = cached_session a"
  "throttler (read_counts a resp) = throttler a"
  "headers (read_counts a resp) = headers a"
  "calls (read_counts a resp) = calls a"
  by (simp_all add: read_counts_def split: option.splits)

lemma check_call_limit_frame [simp]:
  "cached_session (snd (check_call_limit a resp)) = cached_session a"
  "throttler (snd (check_call_limit a resp)) = throttler a"
  "headers (snd (check_call_limit a resp)) = headers a"
  "calls (snd (check_call_limit a resp)) = calls a"
  by (simp_all add: check_call_limit_def Let_def split: option.splits sum.splits)

lemma check_call_limit_same_quota: "same_quota a (snd (check_call_limit a resp))"
proof -
  have "same_quota (read_counts a resp) (snd (check_call_limit a resp))"
    by (simp add: check_call_limit_def Let_def same_quota_def split: option.splits sum.splits)
  with read_counts_same_quota [of a resp] show ?thesis
    by (rule same_quota_trans)
qed

lemma reply_same_quota: "same_quota a b \<Longrightarrow> reply T a req = reply T b req"
  by (simp add: reply_def check_call_limit_quota_fst [of a b] split: option.splits)

lemma session_cached:
  "cached_session a = Some ss \<Longrightarrow> session a = (Inr ss, a)"
  by (simp add: session_def)

lemma session_same_quota: "same_quota a (snd (session a))"
  by (simp add: session_def same_quota_refl split: option.splits)

lemma decode_snd [simp]: "snd (decode resp s) = s"
  by (simp add: decode_def split: option.splits)

lemma decode_fst: "fst (decode resp s) = (case body resp of None \<Rightarrow> Inl JSONDecodeError | Some d \<Rightarrow> Inr d)"
  by (simp add: decode_def split: option.splits)

lemma send_on_session:
  assumes "cached_session a = Some ss"
  shows "fst (send T req a) =
           (case throttler a of
              None \<Rightarrow> Inl AttributeError
            | Some th \<Rightarrow> if ss = Closed then Inl RuntimeError else reply T a req)"
    and "same_view a (snd (send T req a))"
proof -
  let ?a2 = "a\<lparr>calls := calls a @ [req]\<rparr>"
  have q: "fst (check_call_limit ?a2 resp) = fst (check_call_limit a resp)" for resp
    by (rule check_call_limit_quota_fst) (simp add: same_quota_refl)
  have d: "fst (case check_call_limit ?a2 resp of
                  (Inl e, s3) \<Rightarrow> (Inl e, s3)
                | (Inr u, s3) \<Rightarrow> decode resp s3) =
           (case fst (check_call_limit a resp) of
              Inl e \<Rightarrow> Inl e
            | Inr u \<Rightarrow> (case body resp of None \<Rightarrow> Inl JSONDecodeError | Some d \<Rightarrow> Inr d))" for resp
    using q [of resp]
    by (cases "check_call_limit ?a2 resp") (auto simp: decode_fst split: sum.splits)
  show "fst (send T req a) =
           (case throttler a of
              None \<Rightarrow> Inl AttributeError
            | Some th \<Rightarrow> if ss = Closed then Inl RuntimeError else reply T a req)"
    using d by (simp add: send_def session_cached [OF assms] Let_def reply_def split: option.splits)
  have v: "same_view a (snd (case check_call_limit ?a2 resp of
                  (Inl e, s3) \<Rightarrow> (Inl e, s3)
                | (Inr u, s3) \<Rightarrow> decode resp s3))" for resp
  proof -
    have "same_view a (snd (check_call_limit ?a2 resp))"
      using check_call_limit_same_quota [of ?a2 resp] by (simp add: same_view_def)
    then show ?thesis
      by (cases "check_call_limit ?a2 resp") (auto split: sum.splits)
  qed
  show "same_view a (snd (send T req a))"
    using v by (simp add: send_def session_cached [OF assms] Let_def same_view_def same_quota_refl
        split: option.splits)
qed

lemma send_view_fst:
  assumes "same_view a b" and "cached_session a = Some ss"
  shows "fst (send T req b) = fst (send T req a)"
proof -
  have "cached_session b = Some ss" "throttler b = throttler a" "same_quota a b"
    using assms by (simp_all add: same_view_def)
  then show ?thesis
    using send_on_session(1) [of a ss T req] send_on_session(1) [of b ss T req]
      reply_same_quota [of a b T req] assms(2)
    by (simp split: option.splits)
qed

lemma same_view_trans: "same_view a b \<Longrightarrow> same_view b c \<Longrightarrow> same_view a c"
  using same_quota_trans [of a b c] by (simp add: same_view_def)

lemma view_cached: "same_view a b \<Longrightarrow> cached_session a = Some ss \<Longrightarrow> cached_session b = Some ss"
  by (simp add: same_view_def)

lemma run_tasks_sends:
  assumes "cached_session s0 = Some ss"
  shows "same_view s0 s \<Longrightarrow> set order \<subseteq> {..<length reqs} \<Longrightarrow>
     (fst (run_tasks (map (send T) reqs) order s) = Inr fin) =
     list_all2 (\<lambda>i p. fst p = i \<and> fst (send T (reqs ! i) s0) = Inr (snd p)) order fin"
proof (induction order arbitrary: s fin)
  case Nil
  then show ?case by auto
next
  case (Cons i rest)
  have i: "i < length reqs" and rest: "set rest \<subseteq> {..<length reqs}"
    using Cons.prems(2) by auto
  have cs: "cached_session s = Some ss"
    using view_cached [OF Cons.prems(1) assms] .
  obtain r s1 where step: "send T (reqs ! i) s = (r, s1)"
    by (cases "send T (reqs ! i) s")
  have r: "fst (send T (reqs ! i) s0) = r"
    using send_view_fst [OF Cons.prems(1) assms, of T "reqs ! i"] step by simp
  have v1: "same_view s0 s1"
    using same_view_trans [OF Cons.prems(1) send_on_session(2) [OF cs, of T "reqs ! i"]] step
    by simp
  note IH = Cons.IH [OF v1 rest]
  show ?case
  proof (cases r)
    case (Inl e)
    then show ?thesis using step r i by (auto simp: list_all2_Cons1)
  next
    case (Inr v)
    obtain r2 s2 where rec: "run_tasks (map (send T) reqs) rest s1 = (r2, s2)"
      by (cases "run_tasks (map (send T) reqs) rest s1")
    show ?thesis
    proof (cases r2)
      case (Inl e)
      then have "\<And>f. \<not> list_all2 (\<lambda>i p. fst p = i \<and> fst (send T (reqs ! i) s0) = Inr (snd p)) rest f"
        using IH rec by simp
      then show ?thesis using step r i Inr rec Inl by (auto simp: list_all2_Cons1)
    next
      case (Inr fin2)
      then have d: "list_all2 (\<lambda>i p. fst p = i \<and> fst (send T (reqs ! i) s0) = Inr (snd p)) rest f
                  = (f = fin2)" for f
        using IH [of f] rec by auto
      show ?thesis using step r i \<open>r = Inr v\<close> rec Inr d
        by (auto simp: list_all2_Cons1)
    qed
  qed
qed

lemma completion_order_distinct: "distinct (completion_order n sched)"
  by (auto simp: completion_order_def Let_def)

lemma completion_order_set: "set (completion_order n sched) = {..<n}"
  by (auto simp: completion_order_def Let_def)

lemma map_filter_all:
  "(\<And>i. i \<in> set xs \<Longrightarrow> f i = Some (g i)) \<Longrightarrow> List.map_filter f xs = map g xs"
  by (induction xs) (simp_all add: List.map_filter_simps)

lemma finished_lookup:
  assumes "list_all2 (\<lambda>i p. fst p = i \<and> Q i (snd p)) order fin" and "i \<in> set order"
  shows "\<exists>v. map_of fin i = Some v \<and> Q i v"
  using assms
proof (induction order fin rule: list_all2_induct)
  case Nil
  then show ?case by simp
next
  case (Cons j js p ps)
  then show ?case by (cases p) auto
qed

lemma gather_sends:
  assumes "cached_session s0 = Some ss"
  shows "(fst (gather (map (send T) reqs) sched s0) = Inr rs) =
           list_all2 (\<lambda>req v. fst (send T req s0) = Inr v) reqs rs"
proof -
  let ?n = "length reqs"
  let ?order = "completion_order ?n sched"
  let ?P = "\<lambda>i p. fst p = i \<and> fst (send T (reqs ! i) s0) = Inr (snd p)"
  have sub: "set ?order \<subseteq> {..<?n}" by (simp add: completion_order_set)
  have run: "(fst (run_tasks (map (send T) reqs) ?order s0) = Inr fin) = list_all2 ?P ?order fin" for fin
    using run_tasks_sends [OF assms _ sub, of s0 T fin] by (simp add: same_view_def same_quota_refl)
  have res: "list_all2 ?P ?order fin \<Longrightarrow>
       list_all2 (\<lambda>req v. fst (send T req s0) = Inr v) reqs
         (List.map_filter (map_of fin) [0..<?n])" for fin
  proof -
    assume a: "list_all2 ?P ?order fin"
    have each: "\<exists>v. map_of fin i = Some v \<and> fst (send T (reqs ! i) s0) = Inr v" if "i < ?n" for i
      using finished_lookup [where Q = "\<lambda>i v. fst (send T (reqs ! i) s0) = Inr v", OF a] that
      by (simp add: completion_order_set)
    define g where "g i = the (map_of fin i)" for i
    have g: "map_of fin i = Some (g i)" "fst (send T (reqs ! i) s0) = Inr (g i)" if "i < ?n" for i
      using each [OF that] by (auto simp: g_def)
    have "List.map_filter (map_of fin) [0..<?n] = map g [0..<?n]"
      by (rule map_filter_all) (simp add: g)
    then show ?thesis using g(2) by (simp add: list_all2_conv_all_nth)
  qed
  show ?thesis
  proof
    assume "fst (gather (map (send T) reqs) sched s0) = Inr rs"
    then obtain fin where f: "fst (run_tasks (map (send T) reqs) ?order s0) = Inr fin"
      and rs: "rs = List.map_filter (map_of fin) [0..<?n]"
      by (auto simp: gather_def split: prod.splits sum.splits)
    from f have "list_all2 ?P ?order fin" by (simp add: run)
    from res [OF this] rs show "list_all2 (\<lambda>req v. fst (send T req s0) = Inr v) reqs rs" by simp
  next
    assume a: "list_all2 (\<lambda>req v. fst (send T req s0) = Inr v) reqs rs"
    then have len: "length rs = ?n" and nth: "\<And>i. i < ?n \<Longrightarrow> fst (send T (reqs ! i) s0) = Inr (rs ! i)"
      by (simp_all add: list_all2_conv_all_nth)
    have "\<forall>i\<in>set ?order. fst (send T (reqs ! i) s0) = Inr (rs ! i)"
      using nth by (simp add: completion_order_set)
    then have "list_all2 ?P ?order (map (\<lambda>i. (i, rs ! i)) ?order)"
      by (simp add: list_all2_conv_all_nth)
    then have f: "fst (run_tasks (map (send T) reqs) ?order s0) = Inr (map (\<lambda>i. (i, rs ! i)) ?order)"
      by (simp add: run)
    from res [OF \<open>list_all2 ?P ?order _\<close>] have
      "list_all2 (\<lambda>req v. fst (send T req s0) = Inr v) reqs
         (List.map_filter (map_of (map (\<lambda>i. (i, rs ! i)) ?order)) [0..<?n])" .
    with a have "List.map_filter (map_of (map (\<lambda>i. (i, rs ! i)) ?order)) [0..<?n] = rs"
      by (auto simp: list_all2_conv_all_nth intro!: nth_equalityI)
    with f show "fst (gather (map (send T) reqs) sched s0) = Inr rs"
      by (auto simp: gather_def split: prod.splits sum.splits)
  qed
qed

section \<open>What a batch returns\<close>

lemma get_tasks_open:
  "guard_open self \<Longrightarrow> get_tasks T urls self = Inr (map (send T) (map GetReq urls))"
  by (induction urls) (simp_all add: async_get_def call_limiter_open async_get_body_def)

lemma get_tasks_shut:
  "\<not> guard_open self \<Longrightarrow> urls \<noteq> [] \<Longrightarrow> \<exists>e. get_tasks T urls self = Inl e"
  by (cases urls; cases "async_get T (hd urls) self")
     (simp_all add: async_get_def call_limiter_Inr)

lemma get_tasks_Inr:
  "(get_tasks T urls self = Inr ts) =
     ((urls = [] \<or> guard_open self) \<and> ts = map (send T) (map GetReq urls))"
proof (cases "urls = [] \<or> guard_open self")
  case True
  then show ?thesis using get_tasks_open [of self T urls] by auto
next
  case False
  then show ?thesis using get_tasks_shut [of self urls T] by auto
qed

lemma post_tasks_open:
  "guard_open self \<Longrightarrow>
     post_tasks T ps self = Inr (map (send T) (map (\<lambda>(u, p). PostReq u p) ps))"
  by (induction ps) (auto simp: async_post_def call_limiter_open async_post_body_def)

lemma post_tasks_shut:
  "\<not> guard_open self \<Longrightarrow> ps \<noteq> [] \<Longrightarrow> \<exists>e. post_tasks T ps self = Inl e"
  by (cases ps; cases "hd ps"; cases "async_post T (fst (hd ps)) (snd (hd ps)) self")
     (simp_all add: async_post_def call_limiter_Inr)

lemma post_tasks_Inr:
  "(post_tasks T ps self = Inr ts) =
     ((ps = [] \<or> guard_open self) \<and> ts = map (send T) (map (\<lambda>(u, p). PostReq u p) ps))"
proof (cases "ps = [] \<or> guard_open self")
  case True
  then show ?thesis using post_tasks_open [of self T ps] by auto
next
  case False
  then show ?thesis using post_tasks_shut [of self ps T] by auto
qed

lemma session_cases:
  "(session_ok self \<and> (\<exists>ss. session self = (Inr ss, snd (session self)) \<and>
        cached_session (snd (session self)) = Some ss \<and>
        (ss = Closed) = (cached_session self = Some Closed))) \<or>
   (\<not> session_ok self \<and> (\<exists>e. session self = (Inl e, self)))"
  by (cases "cached_session self"; cases "headers self") (auto simp: session_def session_ok_def)

lemma session_frame [simp]:
  "throttler (snd (session self)) = throttler self"
  "remaining_calls (snd (session self)) = remaining_calls self"
  by (simp_all add: session_def split: option.splits)

lemma guard_open_session [simp]: "guard_open (snd (session self)) = guard_open self"
  by (simp add: guard_open_def)

lemma reply_session [simp]: "reply T (snd (session self)) req = reply T self req"
  using reply_same_quota [OF session_same_quota [of self]] by simp

text \<open>
  What a batch of requests returns, whichever loop made the coroutines.
\<close>

lemma batch_returns:
  assumes "session self = (Inr ss, s1)"
  shows "(fst (gather (map (send T) reqs) sched s1) = Inr rs) =
     ((reqs = [] \<or> (throttler self \<noteq> None \<and> cached_session self \<noteq> Some Closed)) \<and>
      list_all2 (\<lambda>req v. reply T self req = Inr v) reqs rs)"
proof -
  from session_cases [of self] assms have c: "cached_session s1 = Some ss"
    and cl: "(ss = Closed) = (cached_session self = Some Closed)" and s1: "s1 = snd (session self)"
    by auto
  have each: "fst (send T req s1) =
       (case throttler self of None \<Rightarrow> Inl AttributeError
        | Some th \<Rightarrow> if cached_session self = Some Closed then Inl RuntimeError else reply T self req)" for req
    using send_on_session(1) [OF c, of T req] cl unfolding s1 by (simp split: option.splits)
  show ?thesis
  proof (cases "throttler self \<noteq> None \<and> cached_session self \<noteq> Some Closed")
    case True
    then have "fst (send T req s1) = reply T self req" for req
      using each [of req] by auto
    then show ?thesis using gather_sends [OF c, of T reqs sched rs] True by simp
  next
    case False
    then have "\<And>req v. fst (send T req s1) \<noteq> Inr v"
      using each by (auto split: option.splits)
    then have "list_all2 (\<lambda>req v. fst (send T req s1) = Inr v) reqs rs = (reqs = [] \<and> rs = [])"
      by (cases reqs; cases rs) auto
    then show ?thesis using gather_sends [OF c, of T reqs sched rs] False by auto
  qed
qed

lemma process_gets_returns:
  "(fst (process_gets T sched urls self) = Inr rs) =
     (session_ok self \<and>
      (urls = [] \<or> (guard_open self \<and> throttler self \<noteq> None \<and> cached_session self \<noteq> Some Closed)) \<and>
      list_all2 (\<lambda>u v. reply T self (GetReq u) = Inr v) urls rs)"
proof (cases "session_ok self")
  case False
  then show ?thesis using session_cases [of self] by (auto simp: process_gets_def)
next
  case True
  then obtain ss where s: "session self = (Inr ss, snd (session self))"
    using session_cases [of self] by auto
  show ?thesis
  proof (cases "get_tasks T urls (snd (session self))")
    case (Inl e)
    then have "\<not> (urls = [] \<or> guard_open self)"
      using get_tasks_Inr [of T urls "snd (session self)"] by auto
    then show ?thesis using s Inl by (auto simp: process_gets_def split: prod.splits)
  next
    case (Inr ts)
    then have g: "urls = [] \<or> guard_open self" and ts: "ts = map (send T) (map GetReq urls)"
      using get_tasks_Inr [of T urls "snd (session self)" ts] by auto
    have "fst (process_gets T sched urls self) = fst (gather ts sched (snd (session self)))"
      using s Inr by (auto simp: process_gets_def split: prod.splits)
    then show ?thesis
      using batch_returns [OF s, of T "map GetReq urls" sched rs] g ts True
      by (auto simp: list_all2_map1)
  qed
qed

lemma process_posts_returns:
  "(fst (process_posts T sched urls payloads self) = Inr rs) =
     (session_ok self \<and>
      (zip (broadcast urls payloads) payloads = [] \<or>
       (guard_open self \<and> throttler self \<noteq> None \<and> cached_session self \<noteq> Some Closed)) \<and>
      list_all2 (\<lambda>(u, p) v. reply T self (PostReq u p) = Inr v)
        (zip (broadcast urls payloads) payloads) rs)"
proof (cases "session_ok self")
  case False
  then show ?thesis using session_cases [of self] by (auto simp: process_posts_def)
next
  case True
  let ?ps = "zip (broadcast urls payloads) payloads"
  from True obtain ss where s: "session self = (Inr ss, snd (session self))"
    using session_cases [of self] by auto
  show ?thesis
  proof (cases "post_tasks T ?ps (snd (session self))")
    case (Inl e)
    then have "\<not> (?ps = [] \<or> guard_open self)"
      using post_tasks_Inr [of T ?ps "snd (session self)"] by auto
    then show ?thesis using s Inl by (auto simp: process_posts_def split: prod.splits)
  next
    case (Inr ts)
    then have g: "?ps = [] \<or> guard_open self"
      and ts: "ts = map (send T) (map (\<lambda>(u, p). PostReq u p) ?ps)"
      using post_tasks_Inr [of T ?ps "snd (session self)" ts] by auto
    have "fst (process_posts T sched urls payloads self) = fst (gather ts sched (snd (session self)))"
      using s Inr by (auto simp: process_posts_def split: prod.splits)
    then show ?thesis
      using batch_returns [OF s, of T "map (\<lambda>(u, p). PostReq u p) ?ps" sched rs] g ts True
      by (auto simp: list_all2_map1 case_prod_unfold)
  qed
qed

lemma reply_Inr:
  "(reply T self req = Inr v) =
     (\<exists>resp. T req = Some resp \<and>
        (if status resp = 200 then fst (check_call_limit self resp) = Inr () \<and> body resp = Some v
         else v = degraded (reason resp)))"
  by (auto simp: reply_def split: option.splits sum.splits)

lemma answers_reply: "answers T self req = (\<exists>v. reply T self req = Inr v)"
  by (auto simp: answers_def reply_Inr split: option.splits)

lemma broadcast_single:
  "length (zip (broadcast (UStr a) payloads) payloads) = length payloads"
  "length (zip (broadcast (UList [u]) payloads) payloads) = length payloads"
  "length us = length payloads \<Longrightarrow> length (zip (broadcast (UList us) payloads) payloads) = length payloads"
  by (simp_all add: broadcast_def)

lemma reply_own:
  "reply T self req = Inr v \<Longrightarrow>
     \<exists>resp. T req = Some resp \<and>
       (if status resp = 200 then body resp = Some v else v = degraded (reason resp))"
  by (auto simp: reply_Inr split: if_splits)

lemma ready_parts:
  "ready self \<Longrightarrow>
     session_ok self \<and> guard_open self \<and> throttler self \<noteq> None \<and> cached_session self \<noteq> Some Closed"
  by (simp add: ready_def)

lemma all_answer:
  assumes "\<forall>r\<in>set reqs. answers T self r"
  shows "\<exists>rs. list_all2 (\<lambda>req v. reply T self req = Inr v) reqs rs"
  using assms
proof (induction reqs)
  case Nil
  then show ?case by simp
next
  case (Cons r reqs)
  then obtain rs where "list_all2 (\<lambda>req v. reply T self req = Inr v) reqs rs" by auto
  moreover from Cons.prems obtain v where "reply T self r = Inr v"
    by (auto simp: answers_reply)
  ultimately have "list_all2 (\<lambda>req v. reply T self req = Inr v) (r # reqs) (v # rs)" by simp
  then show ?case by blast
qed

lemma process_gets_own:
  assumes "fst (process_gets T sched urls self) = Inr rs"
  shows "length rs = length urls"
    and "\<forall>i<length urls. \<exists>resp. T (GetReq (urls ! i)) = Some resp \<and>
           (if status resp = 200 then body resp = Some (rs ! i)
            else rs ! i = degraded (reason resp))"
    and "fst (process_gets T sched' urls self) = Inr rs"
proof -
  from assms have l: "list_all2 (\<lambda>u v. reply T self (GetReq u) = Inr v) urls rs"
    by (simp add: process_gets_returns)
  then show "length rs = length urls" by (simp add: list_all2_lengthD)
  show "\<forall>i<length urls. \<exists>resp. T (GetReq (urls ! i)) = Some resp \<and>
         (if status resp = 200 then body resp = Some (rs ! i)
          else rs ! i = degraded (reason resp))"
    using l reply_own [of T self] by (simp add: list_all2_conv_all_nth)
  show "fst (process_gets T sched' urls self) = Inr rs"
    using assms by (simp add: process_gets_returns)
qed

lemma process_posts_own:
  assumes "fst (process_posts T sched addr payloads self) = Inr ps"
  shows "length ps = length (zip (broadcast addr payloads) payloads)"
    and "\<forall>i<length ps. \<exists>resp.
           T (PostReq (broadcast addr payloads ! i) (payloads ! i)) = Some resp \<and>
           (if status resp = 200 then body resp = Some (ps ! i)
            else ps ! i = degraded (reason resp))"
    and "fst (process_posts T sched' addr payloads self) = Inr ps"
proof -
  let ?ds = "zip (broadcast addr payloads) payloads"
  from assms have l: "list_all2 (\<lambda>(u, p) v. reply T self (PostReq u p) = Inr v) ?ds ps"
    by (simp add: process_posts_returns)
  from list_all2_lengthD [OF l] show len: "length ps = length ?ds" by simp
  show "\<forall>i<length ps. \<exists>resp.
         T (PostReq (broadcast addr payloads ! i) (payloads ! i)) = Some resp \<and>
         (if status resp = 200 then body resp = Some (ps ! i)
          else ps ! i = degraded (reason resp))"
  proof (intro allI impI)
    fix i assume i: "i < length ps"
    then have "reply T self (PostReq (broadcast addr payloads ! i) (payloads ! i)) = Inr (ps ! i)"
      using l len by (auto simp: list_all2_conv_all_nth)
    then show "\<exists>resp.
         T (PostReq (broadcast addr payloads ! i) (payloads ! i)) = Some resp \<and>
         (if status resp = 200 then body resp = Some (ps ! i)
          else ps ! i = degraded (reason resp))"
      by (rule reply_own)
  qed
  show "fst (process_posts T sched' addr payloads self) = Inr ps"
    using assms by (simp add: process_posts_returns)
qed

lemma process_gets_ready:
  assumes "ready self" and "\<forall>u\<in>set urls. answers T self (GetReq u)"
  shows "\<exists>rs. fst (process_gets T sched urls self) = Inr rs"
proof -
  from assms(2) have "\<forall>r\<in>set (map GetReq urls). answers T self r" by simp
  from all_answer [OF this] obtain rs where
    "list_all2 (\<lambda>u v. reply T self (GetReq u) = Inr v) urls rs"
    by (auto simp: list_all2_map1)
  then have "fst (process_gets T sched urls self) = Inr rs"
    using ready_parts [OF assms(1)] by (simp add: process_gets_returns)
  then show ?thesis ..
qed

lemma process_posts_ready:
  assumes "ready self"
    and "\<forall>(u, p)\<in>set (zip (broadcast addr payloads) payloads). answers T self (PostReq u p)"
  shows "\<exists>ps. fst (process_posts T sched addr payloads self) = Inr ps"
proof -
  let ?ds = "zip (broadcast addr payloads) payloads"
  from assms(2) have "\<forall>r\<in>set (map (\<lambda>(u, p). PostReq u p) ?ds). answers T self r" by auto
  from all_answer [OF this] obtain ps where
    "list_all2 (\<lambda>(u, p) v. reply T self (PostReq u p) = Inr v) ?ds ps"
    by (auto simp: list_all2_map1 case_prod_unfold)
  then have "fst (process_posts T sched addr payloads self) = Inr ps"
    using ready_parts [OF assms(1)] by (simp add: process_posts_returns)
  then show ?thesis ..
qed

lemma host1_ready: "ready host1"
  by (simp add: ready_def session_ok_def guard_open_def host1_def host0_def)

lemma abc_answers:
  "answers abc_transport host1 (GetReq (UStr ''/a''))"
  "answers abc_transport host1 (GetReq (UStr ''/missing''))"
  "answers abc_transport host1 (GetReq (UStr ''/c''))"
  by (simp_all add: answers_def abc_transport_def not_found_def ok_response_def
        check_call_limit_def read_counts_def host1_def host0_def)



text \<open>
  C2, as amended. On a ready host, when each request of a batch gets a response that has
  a status other than 200, or has status 200 with a body that decodes and a quota update
  that goes through, \<^verbatim>\<open>process_gets\<close> and \<^verbatim>\<open>process_posts\<close> return: an index whose
  response is not a 200 holds the error payload with that response's reason, and every
  other index holds the decoded body of its own response.
\<close>

theorem non_200_response_degrades:
  "(ready self \<and> (\<forall>u\<in>set urls. answers T self (GetReq u)) \<longrightarrow>
      (\<exists>rs. fst (process_gets T sched urls self) = Inr rs \<and> length rs = length urls \<and>
         (\<forall>i<length urls. \<forall>resp. T (GetReq (urls ! i)) = Some resp \<longrightarrow>
            (if status resp = 200 then body resp = Some (rs ! i)
             else rs ! i = degraded (reason resp))))) \<and>
   (ready self \<and>
    (\<forall>(u, p)\<in>set (zip (broadcast addr payloads) payloads). answers T self (PostReq u p)) \<longrightarrow>
      (\<exists>ps. fst (process_posts T sched addr payloads self) = Inr ps \<and>
         length ps = length (zip (broadcast addr payloads) payloads) \<and>
         (\<forall>i<length ps. \<forall>resp.
            T (PostReq (broadcast addr payloads ! i) (payloads ! i)) = Some resp \<longrightarrow>
            (if status resp = 200 then body resp = Some (ps ! i)
             else ps ! i = degraded (reason resp)))))"
proof (intro conjI impI)
  assume a: "ready self \<and> (\<forall>u\<in>set urls. answers T self (GetReq u))"
  then obtain rs where rs: "fst (process_gets T sched urls self) = Inr rs"
    using process_gets_ready [of self urls T sched] by blast
  from process_gets_own(1,2) [OF rs] rs
  show "\<exists>rs. fst (process_gets T sched urls self) = Inr rs \<and> length rs = length urls \<and>
         (\<forall>i<length urls. \<forall>resp. T (GetReq (urls ! i)) = Some resp \<longrightarrow>
            (if status resp = 200 then body resp = Some (rs ! i)
             else rs ! i = degraded (reason resp)))"
    by (intro exI [of _ rs]) auto
next
  assume a: "ready self \<and>
    (\<forall>(u, p)\<in>set (zip (broadcast addr payloads) payloads). answers T self (PostReq u p))"
  then obtain ps where ps: "fst (process_posts T sched addr payloads self) = Inr ps"
    using process_posts_ready [of self addr payloads T sched] by blast
  from process_posts_own(1,2) [OF ps] ps
  show "\<exists>ps. fst (process_posts T sched addr payloads self) = Inr ps \<and>
         length ps = length (zip (broadcast addr payloads) payloads) \<and>
         (\<forall>i<length ps. \<forall>resp.
            T (PostReq (broadcast addr payloads ! i) (payloads ! i)) = Some resp \<longrightarrow>
            (if status resp = 200 then body resp = Some (ps ! i)
             else ps ! i = degraded (reason resp)))"
    by (intro exI [of _ ps]) auto
qed

theorem non_200_response_degrades_witness:
  "\<exists>rs. fst (process_gets abc_transport [2, 0, 1]
            [UStr ''/a'', UStr ''/missing'', UStr ''/c''] host1) = Inr rs \<and>
         rs = [JStr ''pong'', degraded ''Not Found'', JStr ''pong'']"
proof -
  let ?urls = "[UStr ''/a'', UStr ''/missing'', UStr ''/c'']"
  have h: "ready host1 \<and> (\<forall>u\<in>set ?urls. answers abc_transport host1 (GetReq u))"
    using host1_ready abc_answers by simp
  from non_200_response_degrades [of host1 ?urls abc_transport "[2, 0, 1]" "UStr []" "[]"] h
  obtain rs where rs: "fst (process_gets abc_transport [2, 0, 1] ?urls host1) = Inr rs"
    and len: "length rs = 3"
    and own: "\<forall>i<3. \<forall>resp. abc_transport (GetReq (?urls ! i)) = Some resp \<longrightarrow>
            (if status resp = 200 then body resp = Some (rs ! i)
             else rs ! i = degraded (reason resp))"
    by auto
  have "rs ! 0 = JStr ''pong''" "rs ! 1 = degraded ''Not Found''" "rs ! 2 = JStr ''pong''"
    using own [rule_format, of 0] own [rule_format, of 1] own [rule_format, of 2]
    by (simp_all add: abc_transport_def ok_response_def not_found_def)
  with len have "rs = [JStr ''pong'', degraded ''Not Found'', JStr ''pong'']"
    by (auto simp: list_eq_iff_nth_eq less_Suc_eq numeral_3_eq_3 numeral_2_eq_2)
  with rs show ?thesis by blast
qed

text \<open>
  C2 as stated fails for the other two kinds of failure: one body that does not decode,
  or one request that gets no response, and the whole batch raises; the results of the
  other requests are lost.
\<close>

theorem batch_failure_counterexample:
  "fst (process_gets abc_transport [] [UStr ''/a'', UStr ''/garbled'', UStr ''/c''] host1)
     = Inl JSONDecodeError \<and>
   fst (process_gets abc_transport [] [UStr ''/a'', UStr ''/slow'', UStr ''/c''] host1)
     = Inl ConnectionError"
  by (simp add: process_gets_def session_def host1_def host0_def async_get_def
      call_limiter_def gather_def completion_order_def async_get_body_def send_def
      abc_transport_def ok_response_def malformed_def check_call_limit_def read_counts_def
      decode_def headers_get_def upt_rec_numeral)

text \<open>
  C4. Handed the one-element list \<^verbatim>\<open>["/x"]\<close> and two payloads, \<^verbatim>\<open>process_posts\<close>
  sends two requests whose target is the list itself, not the address in it; handed
  the string \<^verbatim>\<open>"/x"\<close>, it sends them to \<^verbatim>\<open>"/x"\<close>.
\<close>

theorem one_element_list_broadcast:
  "calls (snd (process_posts ok_transport [] (UList [UStr ''/x'']) [JInt 1, JInt 2] host1))
     = [PostReq (UList [UStr ''/x'']) (JInt 1), PostReq (UList [UStr ''/x'']) (JInt 2)] \<and>
   calls (snd (process_posts ok_transport [] (UStr ''/x'') [JInt 1, JInt 2] host1))
     = [PostReq (UStr ''/x'') (JInt 1), PostReq (UStr ''/x'') (JInt 2)]"
  by (simp add: run_defs example_defs)

section \<open>The synchronous bridge\<close>

lemma pipeline_run:
  "pipeline method args kwargs unpack self =
     (case method (passed args kwargs unpack) (pipeline_context self) of
        (Inr v, s3) \<Rightarrow> (Inr (Some v), reset (loop_close (next_loop self) s3))
      | (Inl e, s3) \<Rightarrow>
          if is_Exception e then (Inr None, reset (loop_close (next_loop self) s3))
          else (Inl e, s3))"
  by (simp add: pipeline_def pipeline_context_def passed_def new_event_loop_def Let_def)

lemma teardown_state [simp]:
  "cached_session (reset (loop_close l s)) = None"
  "l \<notin> set (open_loops (reset (loop_close l s)))"
  by (simp_all add: reset_def loop_close_def)

text \<open>
  C6, as amended. When the wrapped operation raises an exception of class
  \<^verbatim>\<open>Exception\<close>, \<^verbatim>\<open>pipeline\<close> returns \<^verbatim>\<open>None\<close>; the only exceptions that leave
  \<^verbatim>\<open>pipeline\<close> are those of the operation that are not of class \<^verbatim>\<open>Exception\<close>.
\<close>

theorem pipeline_catches_Exception:
  "(fst (method (passed args kwargs unpack) (pipeline_context self)) = Inl e \<and> is_Exception e \<longrightarrow>
      fst (pipeline method args kwargs unpack self) = Inr None) \<and>
   (fst (pipeline method args kwargs unpack self) = Inl e \<longrightarrow>
      \<not> is_Exception e \<and> fst (method (passed args kwargs unpack) (pipeline_context self)) = Inl e)"
  by (cases "method (passed args kwargs unpack) (pipeline_context self)")
     (auto simp: pipeline_run split: sum.splits if_splits)

theorem pipeline_catches_Exception_witness:
  "fst (pipeline (gets_method ok_transport []) (Some [UStr ''/a'']) None False
         (host0\<lparr>remaining_calls := Some (PInt 0)\<rparr>)) = Inr None \<and>
   fst (gets_method ok_transport [] (Aggregate [UStr ''/a''])
         (pipeline_context (host0\<lparr>remaining_calls := Some (PInt 0)\<rparr>))) = Inl ValueError"
proof -
  let ?h = "host0\<lparr>remaining_calls := Some (PInt 0)\<rparr>"
  have m: "fst (gets_method ok_transport [] (passed (Some [UStr ''/a'']) None False)
             (pipeline_context ?h)) = Inl ValueError"
    by (simp add: gets_method_def passed_def invocation_of_def pipeline_context_def
          new_event_loop_def async_conn_def host0_def process_gets_def session_def
          async_get_def call_limiter_def)
  from pipeline_catches_Exception
    [of "gets_method ok_transport []" "Some [UStr ''/a'']" None False ?h ValueError] m
  have "fst (pipeline (gets_method ok_transport []) (Some [UStr ''/a'']) None False ?h) = Inr None"
    by simp
  with m show ?thesis by (simp add: passed_def invocation_of_def)
qed

text \<open>
  C6 as stated fails for \<^verbatim>\<open>SystemExit\<close>, which \<^verbatim>\<open>get\<close> raises on an HTTP error:
  \<^verbatim>\<open>except Exception\<close> does not catch it.
\<close>

theorem pipeline_SystemExit_counterexample:
  "fst (pipeline (\<lambda>call. get abc_transport (UStr ''/missing'') Map.empty) None None False host1)
     = Inl SystemExit"
  by (simp add: pipeline_run pipeline_context_def passed_def invocation_of_def
        new_event_loop_def async_conn_def get_def guarded_def call_limiter_def get_body_def
        http_error_def example_defs)

text \<open>
  C7, as amended. Whenever \<^verbatim>\<open>pipeline\<close> returns, the loop it created is closed and
  the cached session is gone, so the next use of the session creates a new, open one; and
  \<^verbatim>\<open>pipeline\<close> returns whenever the operation succeeds or raises an exception of class
  \<^verbatim>\<open>Exception\<close>.
\<close>

theorem pipeline_tears_down:
  "(pipeline method args kwargs unpack self = (Inr r, s') \<longrightarrow>
      cached_session s' = None \<and> next_loop self \<notin> set (open_loops s') \<and>
      fst (session s') = (case headers s' of None \<Rightarrow> Inl AttributeError | Some h \<Rightarrow> Inr Open)) \<and>
   ((\<forall>e. fst (method (passed args kwargs unpack) (pipeline_context self)) = Inl e \<longrightarrow> is_Exception e) \<longrightarrow>
      (\<exists>r s'. pipeline method args kwargs unpack self = (Inr r, s')))"
  by (cases "method (passed args kwargs unpack) (pipeline_context self)")
     (auto simp: pipeline_run session_def split: sum.splits if_splits option.splits)

theorem pipeline_tears_down_witness:
  "fst (pipeline (gets_method ok_transport []) (Some [UStr ''/a'']) None False host1)
     = Inr (Some [JStr ''pong'']) \<and>
   cached_session (snd (pipeline (gets_method ok_transport []) (Some [UStr ''/a'']) None False host1))
     = None \<and>
   next_loop host1 \<notin> set (open_loops
     (snd (pipeline (gets_method ok_transport []) (Some [UStr ''/a'']) None False host1))) \<and>
   fst (pipeline (gets_method ok_transport []) (Some [UStr ''/a'']) None False
          (snd (pipeline (gets_method ok_transport []) (Some [UStr ''/a'']) None False host1)))
     = Inr (Some [JStr ''pong''])"
proof -
  let ?m = "gets_method ok_transport []"
  let ?p = "pipeline ?m (Some [UStr ''/a'']) None False host1"
  have first: "fst ?p = Inr (Some [JStr ''pong''])"
    by (simp add: pipeline_run pipeline_context_def passed_def invocation_of_def
          new_event_loop_def async_conn_def gets_method_def run_defs example_defs)
  then have "?p = (Inr (Some [JStr ''pong'']), snd ?p)"
    by (metis prod.collapse)
  with pipeline_tears_down
    [of ?m "Some [UStr ''/a'']" None False host1 "Some [JStr ''pong'']" "snd ?p"]
  have t: "cached_session (snd ?p) = None" "next_loop host1 \<notin> set (open_loops (snd ?p))"
    by simp_all
  have second: "fst (pipeline ?m (Some [UStr ''/a'']) None False (snd ?p))
     = Inr (Some [JStr ''pong''])"
    by (simp add: pipeline_run pipeline_context_def passed_def invocation_of_def
          new_event_loop_def async_conn_def gets_method_def run_defs example_defs
          reset_def loop_close_def)
  from first t second show ?thesis by simp
qed

text \<open>
  C7 as stated fails when the operation raises \<^verbatim>\<open>SystemExit\<close>: the exception leaves
  \<^verbatim>\<open>pipeline\<close> before \<^verbatim>\<open>loop.close()\<close> and \<^verbatim>\<open>self.reset()\<close>, so the loop stays open
  and the session stays cached.
\<close>

theorem pipeline_leak_counterexample:
  "fst (pipeline exiting_method None None False host1) = Inl SystemExit \<and>
   cached_session (snd (pipeline exiting_method None None False host1)) = Some Open \<and>
   next_loop host1 \<in> set (open_loops (snd (pipeline exiting_method None None False host1)))"
  by (simp add: pipeline_run pipeline_context_def passed_def invocation_of_def
        new_event_loop_def async_conn_def exiting_method_def session_def get_def guarded_def
        call_limiter_def get_body_def http_error_def example_defs)



section \<open>Further properties\<close>

lemma send_calls:
  assumes "cached_session a = Some Open" and "throttler a \<noteq> None"
  shows "calls (snd (send T req a)) = calls a @ [req]"
proof -
  let ?a2 = "a\<lparr>calls := calls a @ [req]\<rparr>"
  have c: "calls (snd (case check_call_limit ?a2 resp of
                  (Inl e, s3) \<Rightarrow> (Inl e, s3)
                | (Inr u, s3) \<Rightarrow> decode resp s3)) = calls a @ [req]" for resp
    using check_call_limit_frame(4) [of ?a2 resp]
    by (cases "check_call_limit ?a2 resp") (auto split: sum.splits)
  show ?thesis
    using assms c
    by (auto simp: send_def session_cached Let_def split: option.splits)
qed

lemma send_keeps_open:
  assumes "cached_session a = Some Open" and "throttler a \<noteq> None"
  shows "cached_session (snd (send T req a)) = Some Open \<and> throttler (snd (send T req a)) \<noteq> None"
  using send_on_session(2) [OF assms(1), of T req] assms by (simp add: same_view_def)

lemma run_tasks_calls:
  "cached_session s = Some Open \<Longrightarrow> throttler s \<noteq> None \<Longrightarrow>
   set order \<subseteq> {..<length reqs} \<Longrightarrow>
   fst (run_tasks (map (send T) reqs) order s) = Inr fin \<Longrightarrow>
   calls (snd (run_tasks (map (send T) reqs) order s)) = calls s @ map (\<lambda>i. reqs ! i) order"
proof (induction order arbitrary: s fin)
  case Nil
  then show ?case by simp
next
  case (Cons i rest)
  have i: "i < length reqs" and rest: "set rest \<subseteq> {..<length reqs}"
    using Cons.prems(3) by auto
  obtain r s1 where step: "send T (reqs ! i) s = (r, s1)"
    by (cases "send T (reqs ! i) s")
  have s1: "cached_session s1 = Some Open" "throttler s1 \<noteq> None"
    "calls s1 = calls s @ [reqs ! i]"
    using send_keeps_open [OF Cons.prems(1,2), of T "reqs ! i"]
      send_calls [OF Cons.prems(1,2), of T "reqs ! i"] step by simp_all
  obtain r2 s2 where rec: "run_tasks (map (send T) reqs) rest s1 = (r2, s2)"
    by (cases "run_tasks (map (send T) reqs) rest s1")
  from Cons.prems(4) step rec i obtain v fin2 where "r = Inr v" "r2 = Inr fin2"
    by (auto split: sum.splits)
  with Cons.IH [OF s1(1,2) rest, of fin2] rec step i s1(3) show ?case
    by simp
qed

lemma gather_snd:
  "snd (gather tasks sched s) = snd (run_tasks tasks (completion_order (length tasks) sched) s)"
  by (simp add: gather_def split: prod.splits sum.splits)

lemma close_session_calls [simp]: "calls (close_session s) = calls s"
  by (simp add: close_session_def split: option.splits)

lemma session_calls [simp]: "calls (snd (session s)) = calls s"
  by (simp add: session_def split: option.splits)

lemma broadcast_string:
  "zip (broadcast (UStr a) payloads) payloads = map (\<lambda>p. (UStr a, p)) payloads"
  by (simp add: broadcast_def zip_replicate1 map_replicate_const [symmetric] zip_map1 zip_same_conv_map
        del: replicate_eq_replicate)

text \<open>
  The broadcast of a bare string. On a ready host whose \<open>k\<close> posts to the address are all
  answered, \<^verbatim>\<open>process_posts\<close> returns \<open>k\<close> results and adds exactly \<open>k\<close> requests to
  the transport log, one per payload, each to that address: the request of payload \<open>i\<close>
  is sent when task \<open>i\<close> runs.
\<close>

theorem broadcast_string_calls:
  "ready self \<and> (\<forall>p\<in>set payloads. answers T self (PostReq (UStr a) p)) \<longrightarrow>
     (\<exists>ps. fst (process_posts T sched (UStr a) payloads self) = Inr ps \<and>
           length ps = length payloads) \<and>
     calls (snd (process_posts T sched (UStr a) payloads self)) =
       calls self @ map (\<lambda>i. PostReq (UStr a) (payloads ! i))
                     (completion_order (length payloads) sched) \<and>
     distinct (completion_order (length payloads) sched) \<and>
     set (completion_order (length payloads) sched) = {..<length payloads}"
proof (intro impI)
  assume a: "ready self \<and> (\<forall>p\<in>set payloads. answers T self (PostReq (UStr a) p))"
  let ?reqs = "map (\<lambda>p. PostReq (UStr a) p) payloads"
  let ?order = "completion_order (length payloads) sched"
  from a have rd: "session_ok self" "guard_open self" "throttler self \<noteq> None"
    "cached_session self \<noteq> Some Closed"
    using ready_parts [of self] by simp_all
  from a have "\<forall>(u, p)\<in>set (zip (broadcast (UStr a) payloads) payloads).
      answers T self (PostReq u p)" by (simp add: broadcast_string)
  from process_posts_ready [OF conjunct1 [OF a] this, of sched]
  obtain ps where ps: "fst (process_posts T sched (UStr a) payloads self) = Inr ps" by blast
  from process_posts_own(1) [OF ps] have len: "length ps = length payloads"
    by (simp add: broadcast_string)
  from session_cases [of self] rd obtain ss s1 where
    s: "session self = (Inr ss, s1)" and s1: "s1 = snd (session self)"
    and c: "cached_session s1 = Some ss" and "ss \<noteq> Closed"
    by auto
  then have op: "cached_session s1 = Some Open" by (cases ss) simp_all
  have th: "throttler s1 \<noteq> None" and go: "guard_open s1" using rd s1 by simp_all
  have tasks: "post_tasks T (zip (broadcast (UStr a) payloads) payloads) s1 = Inr (map (send T) ?reqs)"
    using post_tasks_open [OF go, of T "map (\<lambda>p. (UStr a, p)) payloads"]
    by (simp add: comp_def broadcast_string)
  have eq: "process_posts T sched (UStr a) payloads self =
        (fst (gather (map (send T) ?reqs) sched s1),
         close_session (snd (gather (map (send T) ?reqs) sched s1)))"
    by (simp add: process_posts_def s tasks split: prod.splits)
  with ps have g: "fst (gather (map (send T) ?reqs) sched s1) = Inr ps" by simp
  then obtain fin where
    f: "fst (run_tasks (map (send T) ?reqs) (completion_order (length ?reqs) sched) s1) = Inr fin"
    by (auto simp: gather_def split: prod.splits sum.splits)
  have sub: "set (completion_order (length ?reqs) sched) \<subseteq> {..<length ?reqs}"
    by (simp add: completion_order_set)
  have cs: "calls s1 = calls self" using s1 by simp
  from run_tasks_calls [OF op th sub f]
  have "calls (snd (process_posts T sched (UStr a) payloads self)) =
       calls self @ map (\<lambda>i. ?reqs ! i) ?order"
    using eq cs by (simp add: gather_snd)
  moreover have "map (\<lambda>i. ?reqs ! i) ?order = map (\<lambda>i. PostReq (UStr a) (payloads ! i)) ?order"
    by (rule map_cong) (simp_all add: completion_order_set)
  ultimately show "(\<exists>ps. fst (process_posts T sched (UStr a) payloads self) = Inr ps \<and>
           length ps = length payloads) \<and>
     calls (snd (process_posts T sched (UStr a) payloads self)) =
       calls self @ map (\<lambda>i. PostReq (UStr a) (payloads ! i)) ?order \<and>
     distinct ?order \<and> set ?order = {..<length payloads}"
    using ps len by (simp add: completion_order_distinct completion_order_set)
qed

theorem broadcast_string_calls_witness:
  "calls (snd (process_posts ok_transport [2, 0] (UStr ''/x'') [JInt 1, JInt 2, JInt 3] host1)) =
     [PostReq (UStr ''/x'') (JInt 3), PostReq (UStr ''/x'') (JInt 1), PostReq (UStr ''/x'') (JInt 2)]"
proof -
  have "ready host1 \<and>
    (\<forall>p\<in>set [JInt 1, JInt 2, JInt 3]. answers ok_transport host1 (PostReq (UStr ''/x'') p))"
    using host1_ready
    by (simp add: answers_def ok_transport_def ok_response_def check_call_limit_def
          read_counts_def host1_def host0_def)
  from broadcast_string_calls [of host1 "[JInt 1, JInt 2, JInt 3]" ok_transport "''/x''" "[2, 0]"] this
  show ?thesis
    by (simp add: completion_order_def host1_def host0_def upt_rec_numeral)
qed

text \<open>
  A quota read from a header that holds a string: \<^verbatim>\<open>check_call_limit\<close> stores the
  string as it is, and from then on the guard's comparison \<^verbatim>\<open>remaining_calls > 0\<close>
  raises \<^verbatim>\<open>TypeError\<close> in every guarded operation, whatever the string says.
\<close>

theorem string_quota_blocks_every_call:
  "(remaining_calls self = Some (PStr s) \<longrightarrow>
      get T url hs self = (Inl TypeError, self) \<and>
      post T url d self = (Inl TypeError, self) \<and>
      async_get T url self = Inl TypeError \<and>
      async_post T url d self = Inl TypeError) \<and>
   (call_limit_remaining_key self = Some kr \<and> resp_headers resp kr = Some (PStr s) \<longrightarrow>
      remaining_calls (snd (check_call_limit self resp)) = Some (PStr s))"
  by (simp add: get_def post_def guarded_def async_get_def async_post_def call_limiter_def
        check_call_limit_def headers_get_def Let_def)

theorem string_quota_blocks_every_call_witness:
  "remaining_calls (snd (check_call_limit host1 string_response)) = Some (PStr ''5'') \<and>
   get ok_transport (UStr ''/a'') Map.empty (snd (check_call_limit host1 string_response))
     = (Inl TypeError, snd (check_call_limit host1 string_response))"
proof -
  have r: "remaining_calls (snd (check_call_limit host1 string_response)) = Some (PStr ''5'')"
    using string_quota_blocks_every_call
      [of host1 "''5''" ok_transport "UStr ''/a''" Map.empty JNull "''X-Remaining''" string_response]
    by (simp add: host1_def host0_def string_response_def)
  from string_quota_blocks_every_call
    [of "snd (check_call_limit host1 string_response)" "''5''" ok_transport "UStr ''/a''"
        Map.empty JNull "''X-Remaining''" string_response] r
  show ?thesis by simp
qed

end
